theory Spec2Isabelle
  imports Main "HOL-Library.Word"
begin

section \<open>Consensus phases (consensus/istanbul/core/types.go)\<close>

text \<open>
  \<^verbatim>\<open>type State uint64\<close> with the four constants numbered by \<^verbatim>\<open>iota\<close>.
  Any 64-bit value is a \<open>State\<close>; the four named ones are 0 to 3.
\<close>

type_synonym State = "64 word"

definition StateAcceptRequest :: State where
  "StateAcceptRequest = 0"

definition StatePreprepared :: State where
  "StatePreprepared = 1"

definition StatePrepared :: State where
  "StatePrepared = 2"

definition StateCommitted :: State where
  "StateCommitted = 3"

definition State_String :: "State \<Rightarrow> string" where
  "State_String s =
     (if s = StateAcceptRequest then ''Accept request''
      else if s = StatePreprepared then ''Preprepared''
      else if s = StatePrepared then ''Prepared''
      else if s = StateCommitted then ''Committed''
      else ''Unknown'')"

text \<open>\<open>Cmp\<close> compares the two states as unsigned 64-bit numbers.\<close>

definition Cmp :: "State \<Rightarrow> State \<Rightarrow> int" where
  "Cmp s y =
     (if unat s < unat y then - 1
      else if unat s > unat y then 1
      else 0)"

text \<open>The four phases in their declared order.\<close>

definition phases :: "State list" where
  "phases = [StateAcceptRequest, StatePreprepared, StatePrepared, StateCommitted]"

section \<open>Errors\<close>

text \<open>
  The causes with which the RLP decoder rejects an input (package \<^verbatim>\<open>rlp\<close>), and the
  errors of package \<^verbatim>\<open>core\<close> that the functions below return. A Go \<^verbatim>\<open>error\<close> is any of
  them; \<open>ErrOther\<close> stands for an error of a collaborator (the verification callback).
\<close>

datatype rlp_error =
    EOL
  | EOF
  | ErrExpectedString
  | ErrExpectedList
  | ErrCanonInt
  | ErrCanonSize
  | ErrElemTooLarge
  | ErrValueTooLarge
  | ErrMoreThanOneValue
  | errUintOverflow
  | errNotAtEOL
  | errTooFewElements
  | errInputTooLong
  | errInputTooShort

datatype error =
    DecodeError rlp_error
  | errInvalidSigner
  | errInvalidMessage
  | ErrOther string

section \<open>The RLP codec\<close>

text \<open>
  Modelled from the spec: package \<^verbatim>\<open>rlp\<close> of the repository (\<^verbatim>\<open>rlp.Encode\<close>,
  \<^verbatim>\<open>rlp.EncodeToBytes\<close>, \<^verbatim>\<open>rlp.DecodeBytes\<close>, \<^verbatim>\<open>rlp.Stream\<close>) is not among the
  source files. The spec asks for a deterministic, fixed-order serialization whose decoder
  rejects truncated and malformed input; the source names the format (RLP). The
  definitions below are that format for the three shapes the envelope uses: byte strings
  (slices and fixed-size arrays), unsigned 64-bit integers and lists. Sizes are natural
  numbers; the format carries them in at most eight bytes.
\<close>

type_synonym byte = "8 word"

text \<open>Values handed to the encoder: \<^verbatim>\<open>[]byte\<close> or a byte array, \<^verbatim>\<open>uint64\<close>, \<^verbatim>\<open>[]interface{}\<close>.\<close>

datatype rlp_val =
    RBytes "byte list"
  | RUint "64 word"
  | RList "rlp_val list"

text \<open>\<open>putint\<close>: the big-endian bytes of a number without leading zeros (one byte for 0).\<close>

fun putint :: "nat \<Rightarrow> byte list" where
  "putint i = (if i < 256 then [of_nat i] else putint (i div 256) @ [of_nat (i mod 256)])"

declare putint.simps [simp del]

text \<open>Reading a big-endian number (\<^verbatim>\<open>binary.BigEndian.Uint64\<close> on the padded buffer).\<close>

definition be_nat :: "byte list \<Rightarrow> nat" where
  "be_nat bs = foldl (\<lambda>a b. a * 256 + unat b) 0 bs"

definition puthead :: "byte \<Rightarrow> byte \<Rightarrow> nat \<Rightarrow> byte list" where
  "puthead smalltag largetag sz =
     (if sz < 56 then [smalltag + of_nat sz]
      else (largetag + of_nat (length (putint sz))) # putint sz)"

definition encodeStringHeader :: "nat \<Rightarrow> byte list" where
  "encodeStringHeader sz =
     (if sz < 56 then [0x80 + of_nat sz]
      else (0xB7 + of_nat (length (putint sz))) # putint sz)"

definition writeBytes :: "byte list \<Rightarrow> byte list" where
  "writeBytes b =
     (if length b = 1 \<and> hd b \<le> 0x7F then [hd b]
      else encodeStringHeader (length b) @ b)"

definition writeUint64 :: "64 word \<Rightarrow> byte list" where
  "writeUint64 i =
     (if i = 0 then [0x80]
      else if i < 128 then [ucast i]
      else (0x80 + of_nat (length (putint (unat i)))) # putint (unat i))"

fun encode_val :: "rlp_val \<Rightarrow> byte list" where
  "encode_val (RBytes b) = writeBytes b"
| "encode_val (RUint i) = writeUint64 i"
| "encode_val (RList xs) =
     (let payload = concat (map encode_val xs)
      in puthead 0xC0 0xF7 (length payload) @ payload)"

text \<open>
  \<^verbatim>\<open>rlp.EncodeToBytes\<close> and \<^verbatim>\<open>rlp.Encode\<close> into a writer that accepts every byte: the
  bytes produced. Encoding these shapes has no error case.
\<close>

definition EncodeToBytes :: "rlp_val \<Rightarrow> error + byte list" where
  "EncodeToBytes v = Inr (encode_val v)"

subsection \<open>The decoding stream\<close>

text \<open>
  A stream is the list of bytes not yet read. \<open>inList\<close> tells whether the bytes are the
  content of an enclosing list (then they are all that may be read: the list limit) or
  the whole input of \<^verbatim>\<open>rlp.DecodeBytes\<close> (a stream limited to the input's length).
\<close>

datatype Kind = KByte | KString | KList

definition tooLarge :: "bool \<Rightarrow> rlp_error" where
  "tooLarge inList = (if inList then ErrElemTooLarge else ErrValueTooLarge)"

definition readUint :: "bool \<Rightarrow> nat \<Rightarrow> byte list \<Rightarrow> rlp_error + (nat \<times> byte list)" where
  "readUint inList sz bs =
     (if sz = 0 then Inr (0, bs)
      else if sz = 1 then
        (case bs of [] \<Rightarrow> Inl (tooLarge inList) | b # rest \<Rightarrow> Inr (unat b, rest))
      else if length bs < sz then Inl (tooLarge inList)
      else if hd bs = 0 then Inl ErrCanonSize
      else Inr (be_nat (take sz bs), drop sz bs))"

text \<open>\<open>readKind\<close> returns the kind, the size, the byte value (kind Byte) and the rest.\<close>

definition readKind ::
  "bool \<Rightarrow> byte list \<Rightarrow> rlp_error + (Kind \<times> nat \<times> byte \<times> byte list)" where
  "readKind inList bs =
     (case bs of
        [] \<Rightarrow> Inl (if inList then ErrElemTooLarge else EOF)
      | b # rest \<Rightarrow>
          if b < 0x80 then Inr (KByte, 0, b, rest)
          else if b < 0xB8 then Inr (KString, unat (b - 0x80), 0, rest)
          else if b < 0xC0 then
            (case readUint inList (unat (b - 0xB7)) rest of
               Inl e \<Rightarrow> Inl e
             | Inr (sz, rest') \<Rightarrow>
                 if sz < 56 then Inl ErrCanonSize else Inr (KString, sz, 0, rest'))
          else if b < 0xF8 then Inr (KList, unat (b - 0xC0), 0, rest)
          else
            (case readUint inList (unat (b - 0xF7)) rest of
               Inl e \<Rightarrow> Inl e
             | Inr (sz, rest') \<Rightarrow>
                 if sz < 56 then Inl ErrCanonSize else Inr (KList, sz, 0, rest')))"

text \<open>
  \<open>Stream.Kind\<close>: the end of the enclosing list is \<open>EOL\<close>; a value whose declared size
  exceeds what is left is rejected before anything of it is read.
\<close>

definition Stream_Kind ::
  "bool \<Rightarrow> byte list \<Rightarrow> rlp_error + (Kind \<times> nat \<times> byte \<times> byte list)" where
  "Stream_Kind inList bs =
     (if inList \<and> bs = [] then Inl EOL
      else
        (case readKind inList bs of
           Inl e \<Rightarrow> Inl e
         | Inr (kind, sz, byteval, rest) \<Rightarrow>
             if sz > length rest then Inl (tooLarge inList)
             else Inr (kind, sz, byteval, rest)))"

text \<open>\<open>Stream.Bytes\<close>, the decoder of \<^verbatim>\<open>[]byte\<close>.\<close>

definition Stream_Bytes :: "bool \<Rightarrow> byte list \<Rightarrow> rlp_error + (byte list \<times> byte list)" where
  "Stream_Bytes inList bs =
     (case Stream_Kind inList bs of
        Inl e \<Rightarrow> Inl e
      | Inr (kind, sz, byteval, rest) \<Rightarrow>
          (case kind of
             KByte \<Rightarrow> Inr ([byteval], rest)
           | KString \<Rightarrow>
               if sz = 1 \<and> hd rest < 128 then Inl ErrCanonSize
               else Inr (take sz rest, drop sz rest)
           | KList \<Rightarrow> Inl ErrExpectedString))"

text \<open>\<open>decodeByteArray\<close>, the decoder of \<^verbatim>\<open>[n]byte\<close> (\<^verbatim>\<open>common.Hash\<close>, \<^verbatim>\<open>common.Address\<close>).\<close>

definition decodeByteArray ::
  "nat \<Rightarrow> bool \<Rightarrow> byte list \<Rightarrow> rlp_error + (byte list \<times> byte list)" where
  "decodeByteArray n inList bs =
     (case Stream_Kind inList bs of
        Inl e \<Rightarrow> Inl e
      | Inr (kind, sz, byteval, rest) \<Rightarrow>
          (case kind of
             KByte \<Rightarrow>
               if n = 0 then Inl errInputTooLong
               else if n > 1 then Inl errInputTooShort
               else Inr ([byteval], rest)
           | KString \<Rightarrow>
               if n < sz then Inl errInputTooLong
               else if n > sz then Inl errInputTooShort
               else if sz = 1 \<and> hd rest < 128 then Inl ErrCanonSize
               else Inr (take sz rest, drop sz rest)
           | KList \<Rightarrow> Inl ErrExpectedString))"

text \<open>\<open>Stream.uint\<close> at 64 bits, the decoder of \<^verbatim>\<open>uint64\<close>.\<close>

definition Stream_uint :: "bool \<Rightarrow> byte list \<Rightarrow> rlp_error + (64 word \<times> byte list)" where
  "Stream_uint inList bs =
     (case Stream_Kind inList bs of
        Inl e \<Rightarrow> Inl e
      | Inr (kind, sz, byteval, rest) \<Rightarrow>
          (case kind of
             KByte \<Rightarrow> if byteval = 0 then Inl ErrCanonInt else Inr (ucast byteval, rest)
           | KString \<Rightarrow>
               if sz > 8 then Inl errUintOverflow
               else
                 (case readUint inList sz rest of
                    Inl e \<Rightarrow> Inl (if e = ErrCanonSize then ErrCanonInt else e)
                  | Inr (v, rest') \<Rightarrow>
                      if sz > 0 \<and> v < 128 then Inl ErrCanonSize
                      else Inr (of_nat v, rest'))
           | KList \<Rightarrow> Inl ErrExpectedString))"

text \<open>\<open>Stream.List\<close>: the content of the list that starts here, and what follows it.\<close>

definition Stream_List :: "bool \<Rightarrow> byte list \<Rightarrow> rlp_error + (byte list \<times> byte list)" where
  "Stream_List inList bs =
     (case Stream_Kind inList bs of
        Inl e \<Rightarrow> Inl e
      | Inr (kind, sz, byteval, rest) \<Rightarrow>
          if kind \<noteq> KList then Inl ErrExpectedList
          else Inr (take sz rest, drop sz rest))"

text \<open>\<open>Stream.ListEnd\<close>: the list must have been read to its end.\<close>

definition Stream_ListEnd :: "byte list \<Rightarrow> rlp_error option" where
  "Stream_ListEnd left = (if left \<noteq> [] then Some errNotAtEOL else None)"

text \<open>A struct field that finds the list at its end: too few elements.\<close>

definition field :: "rlp_error + 'a \<Rightarrow> rlp_error + 'a" where
  "field r = (case r of Inl e \<Rightarrow> Inl (if e = EOL then errTooFewElements else e) | Inr v \<Rightarrow> Inr v)"

section \<open>The message envelope (consensus/istanbul/core/types.go)\<close>

definition msgPreprepare :: "64 word" where
  "msgPreprepare = 0"

definition msgPrepare :: "64 word" where
  "msgPrepare = 1"

definition msgCommit :: "64 word" where
  "msgCommit = 2"

definition msgRoundChange :: "64 word" where
  "msgRoundChange = 3"

definition msgAll :: "64 word" where
  "msgAll = 4"

text \<open>
  \<^verbatim>\<open>common.Hash\<close> is an array of 32 bytes and \<^verbatim>\<open>common.Address\<close> one of 20 bytes; the
  byte slices are compared by content.
\<close>

definition HashLength :: nat where
  "HashLength = 32"

definition AddressLength :: nat where
  "AddressLength = 20"

record message =
  Hash :: "byte list"
  Code :: "64 word"
  Msg :: "byte list"
  Address :: "byte list"
  Signature :: "byte list"
  CommittedSeal :: "byte list"

text \<open>\<open>EncodeRLP\<close>: the bytes written to the writer.\<close>

definition EncodeRLP :: "message \<Rightarrow> error + byte list" where
  "EncodeRLP m =
     EncodeToBytes
       (RList [RBytes (Hash m), RUint (Code m), RBytes (Msg m), RBytes (Address m),
               RBytes (Signature m), RBytes (CommittedSeal m)])"

text \<open>
  A message as Go can hold it: the two arrays have their lengths, and the content of
  the encoded list has a size that fits 64 bits.
\<close>

definition valid_message :: "message \<Rightarrow> bool" where
  "valid_message m \<longleftrightarrow>
     length (Hash m) = HashLength \<and> length (Address m) = AddressLength \<and>
     length (writeBytes (Hash m) @ writeUint64 (Code m) @ writeBytes (Msg m) @
             writeBytes (Address m) @ writeBytes (Signature m) @
             writeBytes (CommittedSeal m)) < 2 ^ 64"

text \<open>
  \<^verbatim>\<open>s.Decode(&msg)\<close> for the struct of \<open>DecodeRLP\<close>: the six fields in their order from
  the content of a list, which must then be at its end.
\<close>

definition decodeFields :: "byte list \<Rightarrow> rlp_error + (message \<times> byte list)" where
  "decodeFields p0 =
     (case field (decodeByteArray HashLength True p0) of
        Inl e \<Rightarrow> Inl e
      | Inr (h, p1) \<Rightarrow>
     (case field (Stream_uint True p1) of
        Inl e \<Rightarrow> Inl e
      | Inr (c, p2) \<Rightarrow>
     (case field (Stream_Bytes True p2) of
        Inl e \<Rightarrow> Inl e
      | Inr (g, p3) \<Rightarrow>
     (case field (decodeByteArray AddressLength True p3) of
        Inl e \<Rightarrow> Inl e
      | Inr (a, p4) \<Rightarrow>
     (case field (Stream_Bytes True p4) of
        Inl e \<Rightarrow> Inl e
      | Inr (sg, p5) \<Rightarrow>
     (case field (Stream_Bytes True p5) of
        Inl e \<Rightarrow> Inl e
      | Inr (cs, p6) \<Rightarrow>
          Inr (\<lparr>Hash = h, Code = c, Msg = g, Address = a, Signature = sg,
                CommittedSeal = cs\<rparr>, p6)))))))"

definition decodeStruct :: "byte list \<Rightarrow> rlp_error + (message \<times> byte list)" where
  "decodeStruct bs =
     (case Stream_List False bs of
        Inl e \<Rightarrow> Inl e
      | Inr (payload, after) \<Rightarrow>
          (case decodeFields payload of
             Inl e \<Rightarrow> Inl e
           | Inr (msg, left) \<Rightarrow>
               (case Stream_ListEnd left of
                  Some e \<Rightarrow> Inl e
                | None \<Rightarrow> Inr (msg, after))))"

text \<open>
  \<open>DecodeRLP\<close> returns the error or the rest of the stream, and the receiver as the call
  leaves it.
\<close>

definition DecodeRLP :: "message \<Rightarrow> byte list \<Rightarrow> (error + byte list) \<times> message" where
  "DecodeRLP m s =
     (case decodeStruct s of
        Inl err \<Rightarrow> (Inl (DecodeError err), m)
      | Inr (msg, rest) \<Rightarrow>
          (Inr rest,
           m\<lparr>Hash := Hash msg, Code := Code msg, Msg := Msg msg, Address := Address msg,
             Signature := Signature msg, CommittedSeal := CommittedSeal msg\<rparr>))"

text \<open>
  \<^verbatim>\<open>rlp.DecodeBytes(b, &m)\<close>: the receiver is decoded in place by \<open>DecodeRLP\<close>; bytes left
  after the value are an error, found after the receiver was written.
\<close>

definition DecodeBytes :: "message \<Rightarrow> byte list \<Rightarrow> error option \<times> message" where
  "DecodeBytes m b =
     (case DecodeRLP m b of
        (Inl err, m') \<Rightarrow> (Some err, m')
      | (Inr rest, m') \<Rightarrow>
          if rest \<noteq> [] then (Some (DecodeError ErrMoreThanOneValue), m')
          else (None, m'))"

definition Payload :: "message \<Rightarrow> error + byte list" where
  "Payload m = EncodeRLP m"

definition PayloadNoSig :: "message \<Rightarrow> error + byte list" where
  "PayloadNoSig m =
     EncodeRLP
       \<lparr>Hash = Hash m, Code = Code m, Msg = Msg m, Address = Address m,
        Signature = [], CommittedSeal = CommittedSeal m\<rparr>"

text \<open>
  \<open>FromPayload\<close> returns the error (\<open>None\<close> is Go's nil) and the receiver as the call
  leaves it. The callback is \<open>None\<close> when the caller passes nil.
\<close>

definition FromPayload ::
  "message \<Rightarrow> byte list \<Rightarrow> (byte list \<Rightarrow> byte list \<Rightarrow> error + byte list) option
     \<Rightarrow> error option \<times> message" where
  "FromPayload m b validateFn =
     (case DecodeBytes m b of
        (Some err, m') \<Rightarrow> (Some err, m')
      | (None, m') \<Rightarrow>
          (case validateFn of
             None \<Rightarrow> (None, m')
           | Some f \<Rightarrow>
               (case PayloadNoSig m' of
                  Inl err \<Rightarrow> (Some err, m')
                | Inr payload \<Rightarrow>
                    (case f payload (Signature m') of
                       Inl err \<Rightarrow> (Some err, m')
                     | Inr signerAddr \<Rightarrow>
                         if signerAddr \<noteq> Address m' then (Some errInvalidSigner, m')
                         else (None, m')))))"

text \<open>
  \<open>Decode\<close> hands the inner payload to the decoder of the shape the caller asks for; the
  decoder of each shape is a parameter.
\<close>

definition Decode :: "(byte list \<Rightarrow> error + 'a) \<Rightarrow> message \<Rightarrow> error + 'a" where
  "Decode dec m = dec (Msg m)"

text \<open>
  Modelled from the spec: the declarations of \<^verbatim>\<open>istanbul.Preprepare\<close> and
  \<^verbatim>\<open>istanbul.Subject\<close> are not among the source files. A proposal is a view with a
  block candidate, a subject a view with a digest.
\<close>

record ('v, 'p) Preprepare =
  View :: 'v
  Proposal :: 'p

record 'v Subject =
  View :: 'v
  Digest :: "byte list"

definition GetView ::
  "(byte list \<Rightarrow> error + ('v, 'p) Preprepare) \<Rightarrow> (byte list \<Rightarrow> error + 'v Subject)
     \<Rightarrow> message \<Rightarrow> error + 'v" where
  "GetView decodePreprepare decodeSubject m =
     (if Code m = msgPreprepare then
        (case Decode decodePreprepare m of
           Inl decodeErr \<Rightarrow> Inl decodeErr
         | Inr preprepare \<Rightarrow> Inr (Preprepare.View preprepare))
      else if Code m = msgPrepare \<or> Code m = msgCommit \<or> Code m = msgRoundChange then
        (case Decode decodeSubject m of
           Inl decodeErr \<Rightarrow> Inl decodeErr
         | Inr subject \<Rightarrow> Inr (Subject.View subject))
      else Inl errInvalidMessage)"

subsection \<open>The receiver as an object in a store\<close>

text \<open>
  \<open>PayloadNoSig\<close> has a pointer receiver and allocates the message it encodes. Here the
  messages live in a store, a pointer is an index into it, and a new object is put at
  the end. A pointer that is not in the store is nil: the call panics (\<open>None\<close>).
\<close>

type_synonym store = "message list"

definition new_message :: "store \<Rightarrow> message \<Rightarrow> nat \<times> store" where
  "new_message h v = (length h, h @ [v])"

definition PayloadNoSig_store :: "store \<Rightarrow> nat \<Rightarrow> ((error + byte list) \<times> store) option" where
  "PayloadNoSig_store h m =
     (if m \<ge> length h then None
      else
        (case new_message h
                \<lparr>Hash = Hash (h ! m), Code = Code (h ! m), Msg = Msg (h ! m),
                 Address = Address (h ! m), Signature = [],
                 CommittedSeal = CommittedSeal (h ! m)\<rparr> of
           (p, h') \<Rightarrow> Some (EncodeRLP (h' ! p), h')))"

section \<open>Effective governance parameters (package impl)\<close>

text \<open>
  The two partial parameter sets, the fork test, the default parameter set and
  \<^verbatim>\<open>ParamSet.Set\<close> are declared elsewhere in the repository: they are parameters here.
  A partial set is a Go map; the list gives its entries in the order the \<^verbatim>\<open>range\<close> loop
  visits them. The result of \<^verbatim>\<open>Set\<close> (an error) is dropped by the loops.
\<close>

record ('k, 'v) GovModule =
  Hgm_EffectiveParamsPartial :: "64 word \<Rightarrow> ('k \<times> 'v) list"
  Cgm_EffectiveParamsPartial :: "64 word \<Rightarrow> ('k \<times> 'v) list"
  isKoreHF :: "64 word \<Rightarrow> bool"

definition overlay :: "('k \<Rightarrow> 'v \<Rightarrow> 'ps \<Rightarrow> 'ps) \<Rightarrow> ('k \<times> 'v) list \<Rightarrow> 'ps \<Rightarrow> 'ps" where
  "overlay ParamSet_Set p ret = fold (\<lambda>(k, v). ParamSet_Set k v) p ret"

definition EffectiveParamSet ::
  "'ps \<Rightarrow> ('k \<Rightarrow> 'v \<Rightarrow> 'ps \<Rightarrow> 'ps) \<Rightarrow> ('k, 'v) GovModule \<Rightarrow> 64 word \<Rightarrow> 'ps" where
  "EffectiveParamSet GetDefaultGovernanceParamSet ParamSet_Set m blockNum =
     (let ret = GetDefaultGovernanceParamSet;
          p1 = Hgm_EffectiveParamsPartial m blockNum;
          ret = overlay ParamSet_Set p1 ret
      in if isKoreHF m blockNum then
           (let p2 = Cgm_EffectiveParamsPartial m blockNum
            in overlay ParamSet_Set p2 ret)
         else ret)"

section \<open>Sample values\<close>

text \<open>A Commit message of a validator, its wire bytes, and a message of another sender.\<close>

definition sample_message :: message where
  "sample_message =
     \<lparr>Hash = [7, 7, 7, 7, 7, 7, 7, 7, 7, 7, 7, 7, 7, 7, 7, 7,
              7, 7, 7, 7, 7, 7, 7, 7, 7, 7, 7, 7, 7, 7, 7, 7],
      Code = 2,
      Msg = [1, 2, 3],
      Address = [9, 9, 9, 9, 9, 9, 9, 9, 9, 9, 9, 9, 9, 9, 9, 9, 9, 9, 9, 9],
      Signature = [0xAA, 0xBB],
      CommittedSeal = []\<rparr>"

definition sample_wire :: "byte list" where
  "sample_wire =
     [248, 63, 160, 7, 7, 7, 7, 7, 7, 7, 7, 7, 7, 7, 7, 7, 7, 7, 7, 7, 7, 7,
      7, 7, 7, 7, 7, 7, 7, 7, 7, 7, 7, 7, 7, 2, 131, 1, 2, 3, 148, 9, 9, 9,
      9, 9, 9, 9, 9, 9, 9, 9, 9, 9, 9, 9, 9, 9, 9, 9, 9, 130, 170, 187, 128]"

definition other_message :: message where
  "other_message =
     \<lparr>Hash = [0, 0, 0, 0, 0, 0, 0, 0, 0, 0, 0, 0, 0, 0, 0, 0,
              0, 0, 0, 0, 0, 0, 0, 0, 0, 0, 0, 0, 0, 0, 0, 0],
      Code = 0,
      Msg = [],
      Address = [0, 0, 0, 0, 0, 0, 0, 0, 0, 0, 0, 0, 0, 0, 0, 0, 0, 0, 0, 0],
      Signature = [],
      CommittedSeal = []\<rparr>"

definition other_address :: "byte list" where
  "other_address = [5, 5, 5, 5, 5, 5, 5, 5, 5, 5, 5, 5, 5, 5, 5, 5, 5, 5, 5, 5]"

text \<open>Decoders of the two inner shapes that read nothing and return a fixed view.\<close>

definition sample_decodePreprepare ::
  "byte list \<Rightarrow> error + (nat \<times> nat, byte list) Preprepare" where
  "sample_decodePreprepare b = Inr \<lparr>Preprepare.View = (10, 0), Proposal = b\<rparr>"

definition sample_decodeSubject :: "byte list \<Rightarrow> error + (nat \<times> nat) Subject" where
  "sample_decodeSubject b =
     (if b = [] then Inl (DecodeError EOF)
      else Inr \<lparr>Subject.View = (10, 1), Digest = b\<rparr>)"

text \<open>
  A governance module whose fork is at block 100, with parameter sets that map names
  to numbers.
\<close>

definition sample_gov :: "(string, nat) GovModule" where
  "sample_gov =
     \<lparr>Hgm_EffectiveParamsPartial = (\<lambda>n. [(''a'', 1), (''b'', 2)]),
      Cgm_EffectiveParamsPartial = (\<lambda>n. [(''b'', 3)]),
      isKoreHF = (\<lambda>n. 100 \<le> n)\<rparr>"

definition sample_default :: "string \<Rightarrow> nat" where
  "sample_default k = 0"

definition sample_Set :: "string \<Rightarrow> nat \<Rightarrow> (string \<Rightarrow> nat) \<Rightarrow> (string \<Rightarrow> nat)" where
  "sample_Set k v ps = ps(k := v)"

section \<open>Properties of the phase order\<close>

lemma phases_nth: "i < 4 \<Longrightarrow> phases ! i = (of_nat i :: State)"
proof -
  assume "i < 4"
  then consider "i = 0" | "i = 1" | "i = 2" | "i = 3"
    by linarith
  then show ?thesis
    by cases
      (simp_all add: phases_def StateAcceptRequest_def StatePreprepared_def
        StatePrepared_def StateCommitted_def)
qed

lemma unat_phase: "i < 4 \<Longrightarrow> unat (phases ! i) = i"
  by (simp add: phases_nth unat_of_nat)

text \<open>
  Claim C5. For the four phases in the order AcceptRequest, Preprepared, Prepared,
  Committed, \<open>Cmp\<close> of the i-th with the j-th phase is -1 when i is before j, 0 when
  they are the same and +1 when i is after j, for every pair.
\<close>

theorem Cmp_total_order:
  "i < 4 \<Longrightarrow> j < 4 \<Longrightarrow>
     Cmp (phases ! i) (phases ! j) = (if i < j then - 1 else if i = j then 0 else 1)"
  by (simp add: Cmp_def unat_phase)

theorem Cmp_total_order_witness:
  "(1::nat) < 4 \<and> (2::nat) < 4 \<and> Cmp StatePreprepared StatePrepared = - 1
   \<and> Cmp StatePrepared StatePreprepared = 1 \<and> Cmp StateCommitted StateCommitted = 0"
  using Cmp_total_order [of 1 2] Cmp_total_order [of 2 1] Cmp_total_order [of 3 3]
  by (simp add: phases_def)

section \<open>Big-endian numbers\<close>

lemma foldl_be:
  "foldl (\<lambda>a b. a * 256 + unat b) a (bs :: byte list)
     = a * 256 ^ length bs + foldl (\<lambda>a b. a * 256 + unat b) 0 bs"
proof (induction bs arbitrary: a)
  case Nil
  then show ?case by simp
next
  case (Cons x xs)
  show ?case
    using Cons.IH [of "a * 256 + unat x"] Cons.IH [of "unat x"]
    by (simp add: algebra_simps)
qed

lemma be_nat_Nil: "be_nat [] = 0"
  by (simp add: be_nat_def)

lemma be_nat_Cons: "be_nat (x # xs) = unat x * 256 ^ length xs + be_nat xs"
  using foldl_be [of "unat x" xs] by (simp add: be_nat_def)

lemma be_nat_snoc: "be_nat (xs @ [b]) = be_nat xs * 256 + unat b"
  by (simp add: be_nat_def)

lemma unat_byte_lt: "unat (b :: byte) < 256"
  using unsigned_less [of b, where ?'a = nat] by simp

lemma be_nat_lt: "be_nat bs < 256 ^ length bs"
proof (induction bs rule: rev_induct)
  case Nil
  then show ?case by (simp add: be_nat_Nil)
next
  case (snoc b bs)
  have "be_nat bs * 256 + unat b < (be_nat bs + 1) * 256"
    using unat_byte_lt [of b] by simp
  also have "\<dots> \<le> 256 ^ length bs * 256"
    using snoc.IH by (intro mult_le_mono1) simp
  finally show ?case by (simp add: be_nat_snoc)
qed

lemma be_nat_pos: "bs \<noteq> [] \<Longrightarrow> hd bs \<noteq> 0 \<Longrightarrow> 0 < be_nat bs"
  by (cases bs) (simp_all add: be_nat_Cons unat_gt_0)

lemma putint_small: "i < 256 \<Longrightarrow> putint i = [of_nat i]"
  by (simp add: putint.simps)

lemma putint_large: "\<not> i < 256 \<Longrightarrow> putint i = putint (i div 256) @ [of_nat (i mod 256)]"
  by (subst putint.simps) simp

lemma putint_not_Nil: "putint i \<noteq> []"
  by (subst putint.simps) simp

lemma be_nat_putint: "be_nat (putint i) = i"
proof (induction i rule: putint.induct)
  case (1 i)
  show ?case
  proof (cases "i < 256")
    case True
    then show ?thesis by (simp add: putint_small be_nat_Cons be_nat_Nil unat_of_nat)
  next
    case False
    have "be_nat (putint i) = be_nat (putint (i div 256)) * 256 + unat (of_nat (i mod 256) :: byte)"
      by (simp only: putint_large [OF False] be_nat_snoc)
    also have "\<dots> = (i div 256) * 256 + i mod 256"
      using 1 False by (simp add: unat_of_nat)
    finally show ?thesis by simp
  qed
qed

lemma putint_be_nat: "bs \<noteq> [] \<Longrightarrow> length bs = 1 \<or> hd bs \<noteq> 0 \<Longrightarrow> putint (be_nat bs) = bs"
proof (induction bs rule: rev_induct)
  case Nil
  then show ?case by simp
next
  case (snoc b bs)
  show ?case
  proof (cases "bs = []")
    case True
    then show ?thesis
      using unat_byte_lt [of b] by (simp add: be_nat_Cons be_nat_Nil putint_small)
  next
    case False
    with snoc.prems have hd: "hd bs \<noteq> 0" by simp
    have pos: "0 < be_nat bs" using False hd by (rule be_nat_pos)
    have ih: "putint (be_nat bs) = bs" using snoc.IH False hd by simp
    have big: "\<not> be_nat bs * 256 + unat b < 256" using pos by simp
    have d: "(be_nat bs * 256 + unat b) div 256 = be_nat bs"
      using unat_byte_lt [of b] by simp
    have m: "(be_nat bs * 256 + unat b) mod 256 = unat b"
      using unat_byte_lt [of b] by simp
    have "putint (be_nat (bs @ [b])) = putint (be_nat bs * 256 + unat b)"
      by (simp only: be_nat_snoc)
    also have "\<dots> = putint (be_nat bs) @ [of_nat (unat b)]"
      by (simp only: putint_large [OF big] d m)
    finally show ?thesis by (simp add: ih)
  qed
qed

lemma hd_putint: "0 < i \<Longrightarrow> hd (putint i) \<noteq> 0"
proof (induction i rule: putint.induct)
  case (1 i)
  show ?case
  proof (cases "i < 256")
    case True
    have "unat (of_nat i :: byte) = i" using True by (simp add: unat_of_nat)
    then have "(of_nat i :: byte) \<noteq> 0" using 1(2) by (metis unat_gt_0)
    then show ?thesis using True by (simp add: putint_small)
  next
    case False
    then have "0 < i div 256" by simp
    then have "hd (putint (i div 256)) \<noteq> 0" using 1(1) False by simp
    then show ?thesis
      by (simp add: putint_large [OF False] hd_append2 [OF putint_not_Nil])
  qed
qed

lemma length_putint: "0 < k \<Longrightarrow> i < 256 ^ k \<Longrightarrow> length (putint i) \<le> k"
proof (induction i arbitrary: k rule: putint.induct)
  case (1 i)
  show ?case
  proof (cases "i < 256")
    case True
    with 1 show ?thesis by (simp add: putint_small)
  next
    case False
    then obtain k' where k: "k = Suc k'" using 1(2) by (cases k) auto
    have "0 < k'" using False 1(3) k by (cases k') auto
    moreover have "i div 256 < 256 ^ k'" using 1(3) k by (simp add: less_mult_imp_div_less)
    ultimately have "length (putint (i div 256)) \<le> k'" using 1(1) False by simp
    then show ?thesis using k by (simp only: putint_large [OF False]) simp
  qed
qed

lemma length_putint_ge2: "\<not> i < 256 \<Longrightarrow> 2 \<le> length (putint i)"
proof -
  assume a: "\<not> i < 256"
  have "1 \<le> length (putint (i div 256))"
    using putint_not_Nil [of "i div 256"] by (cases "putint (i div 256)") simp_all
  then show ?thesis by (simp add: putint_large [OF a])
qed

lemma length_putint_64: "i < 2 ^ 64 \<Longrightarrow> length (putint i) \<le> 8"
  using length_putint [of 8 i] by simp

section \<open>Reading back what the encoder writes\<close>

lemma unat_tag_add: "k < 256 \<Longrightarrow> unat t + k < 256 \<Longrightarrow> unat ((t :: byte) + of_nat k) = unat t + k"
  by (simp add: unat_word_ariths unat_of_nat)

lemma add_sub_tag: "((t :: byte) + x) - t = x"
  by simp

lemma tag80: "n < 56 \<Longrightarrow> \<not> (0x80 + of_nat n :: byte) < 0x80 \<and> (0x80 + of_nat n :: byte) < 0xB8"
  by (simp add: word_less_nat_alt unat_tag_add)

lemma tagC0: "n < 56 \<Longrightarrow> \<not> (0xC0 + of_nat n :: byte) < 0x80 \<and> \<not> (0xC0 + of_nat n :: byte) < 0xB8
   \<and> \<not> (0xC0 + of_nat n :: byte) < 0xC0 \<and> (0xC0 + of_nat n :: byte) < 0xF8"
  by (simp add: word_less_nat_alt unat_tag_add)

lemma tagB7: "1 \<le> l \<Longrightarrow> l \<le> 8 \<Longrightarrow> \<not> (0xB7 + of_nat l :: byte) < 0x80 \<and> \<not> (0xB7 + of_nat l :: byte) < 0xB8
   \<and> (0xB7 + of_nat l :: byte) < 0xC0"
  by (simp add: word_less_nat_alt unat_tag_add)

lemma tagF7: "1 \<le> l \<Longrightarrow> l \<le> 8 \<Longrightarrow> \<not> (0xF7 + of_nat l :: byte) < 0x80 \<and> \<not> (0xF7 + of_nat l :: byte) < 0xB8
   \<and> \<not> (0xF7 + of_nat l :: byte) < 0xC0 \<and> \<not> (0xF7 + of_nat l :: byte) < 0xF8"
  by (simp add: word_less_nat_alt unat_tag_add)

lemma unat_of_nat_byte: "n < 256 \<Longrightarrow> unat (of_nat n :: byte) = n"
  by (simp add: unat_of_nat)

lemma readUint_putint:
  assumes "length (putint n) \<le> 8"
  shows "readUint il (length (putint n)) (putint n @ rest) = Inr (n, rest)"
proof (cases "n < 256")
  case True
  then show ?thesis
    by (simp add: putint_small readUint_def unat_of_nat_byte)
next
  case False
  have l2: "2 \<le> length (putint n)" using False by (rule length_putint_ge2)
  have "0 < n" using False by simp
  then have h: "hd (putint n) \<noteq> 0" by (rule hd_putint)
  show ?thesis
    using l2 h by (simp add: readUint_def putint_not_Nil be_nat_putint)
qed

lemma length_putint_pos: "1 \<le> length (putint n)"
  using putint_not_Nil [of n] by (cases "putint n") simp_all

lemma readKind_stringHeader:
  assumes "n < 2 ^ 64"
  shows "readKind il (encodeStringHeader n @ rest) = Inr (KString, n, 0, rest)"
proof (cases "n < 56")
  case True
  then show ?thesis
    using tag80 [OF True] by (simp add: encodeStringHeader_def readKind_def unat_of_nat_byte)
next
  case False
  have l8: "length (putint n) \<le> 8" using assms by (rule length_putint_64)
  show ?thesis
    using False tagB7 [OF length_putint_pos l8] l8
    by (simp add: encodeStringHeader_def readKind_def unat_of_nat_byte readUint_putint)
qed

lemma readKind_listHeader:
  assumes "n < 2 ^ 64"
  shows "readKind il (puthead 0xC0 0xF7 n @ rest) = Inr (KList, n, 0, rest)"
proof (cases "n < 56")
  case True
  then show ?thesis
    using tagC0 [OF True] by (simp add: puthead_def readKind_def unat_of_nat_byte)
next
  case False
  have l8: "length (putint n) \<le> 8" using assms by (rule length_putint_64)
  show ?thesis
    using False tagF7 [OF length_putint_pos l8] l8
    by (simp add: puthead_def readKind_def unat_of_nat_byte readUint_putint)
qed

lemma encodeStringHeader_not_Nil: "encodeStringHeader n \<noteq> []"
  by (simp add: encodeStringHeader_def)

lemma Stream_Kind_stringHeader:
  assumes "n < 2 ^ 64" and "n \<le> length rest"
  shows "Stream_Kind il (encodeStringHeader n @ rest) = Inr (KString, n, 0, rest)"
  using assms
  by (simp add: Stream_Kind_def readKind_stringHeader encodeStringHeader_not_Nil)

lemma Stream_Kind_byte:
  assumes "b < 0x80"
  shows "Stream_Kind il (b # rest) = Inr (KByte, 0, b, rest)"
  using assms by (simp add: Stream_Kind_def readKind_def)

lemma single_byte: "length b = 1 \<Longrightarrow> b = [hd b]"
  by (cases b) simp_all

lemma le_7F: "(x :: byte) \<le> 0x7F \<longleftrightarrow> x < 0x80"
  by (simp add: word_le_nat_alt word_less_nat_alt) arith

lemma Stream_Bytes_writeBytes:
  assumes "length b < 2 ^ 64"
  shows "Stream_Bytes il (writeBytes b @ rest) = Inr (b, rest)"
proof (cases "length b = 1 \<and> hd b \<le> 0x7F")
  case True
  then have b: "b = [hd b]" and lt: "hd b < 0x80"
    by (simp_all add: single_byte le_7F)
  have "Stream_Bytes il ([hd b] @ rest) = Inr ([hd b], rest)"
    using lt by (simp add: Stream_Bytes_def Stream_Kind_byte)
  then show ?thesis using True b by (simp add: writeBytes_def)
next
  case False
  have k: "Stream_Kind il (encodeStringHeader (length b) @ b @ rest) = Inr (KString, length b, 0, b @ rest)"
    using assms by (intro Stream_Kind_stringHeader) simp_all
  have nc: "\<not> (length b = 1 \<and> hd (b @ rest) < 128)"
  proof
    assume a: "length b = 1 \<and> hd (b @ rest) < 128"
    then have "b = [hd b]" by (simp add: single_byte)
    then have "hd (b @ rest) = hd b" by (metis append_Cons list.sel(1))
    with a False show False by (simp add: le_7F)
  qed
  have wb: "writeBytes b = encodeStringHeader (length b) @ b"
    using False by (auto simp: writeBytes_def)
  show ?thesis
    using k nc by (simp add: wb Stream_Bytes_def)
qed

lemma decodeByteArray_writeBytes:
  assumes "length b < 2 ^ 64"
  shows "decodeByteArray (length b) il (writeBytes b @ rest) = Inr (b, rest)"
proof (cases "length b = 1 \<and> hd b \<le> 0x7F")
  case True
  then have b: "b = [hd b]" and lt: "hd b < 0x80"
    by (simp_all add: single_byte le_7F)
  have "decodeByteArray (length b) il ([hd b] @ rest) = Inr ([hd b], rest)"
    using lt True by (simp add: decodeByteArray_def Stream_Kind_byte)
  then show ?thesis using True b by (simp add: writeBytes_def)
next
  case False
  have k: "Stream_Kind il (encodeStringHeader (length b) @ b @ rest) = Inr (KString, length b, 0, b @ rest)"
    using assms by (intro Stream_Kind_stringHeader) simp_all
  have nc: "\<not> (length b = 1 \<and> hd (b @ rest) < 128)"
  proof
    assume a: "length b = 1 \<and> hd (b @ rest) < 128"
    then have "b = [hd b]" by (simp add: single_byte)
    then have "hd (b @ rest) = hd b" by (metis append_Cons list.sel(1))
    with a False show False by (simp add: le_7F)
  qed
  have wb: "writeBytes b = encodeStringHeader (length b) @ b"
    using False by (auto simp: writeBytes_def)
  show ?thesis
    using k nc by (simp add: wb decodeByteArray_def)
qed

lemma unat_ucast_byte: "unat (ucast (x :: byte) :: 64 word) = unat x"
  using unat_byte_lt [of x] by (simp add: unsigned_ucast_eq take_bit_eq_mod)

lemma ucast_small:
  assumes "(i :: 64 word) < 128"
  shows "(ucast i :: byte) < 0x80" and "(ucast (ucast i :: byte) :: 64 word) = i"
    and "i \<noteq> 0 \<Longrightarrow> (ucast i :: byte) \<noteq> 0"
proof -
  have u: "unat i < 128" using assms by (simp add: word_less_nat_alt)
  have ub: "unat (ucast i :: byte) = unat i"
    using u by (simp add: unsigned_ucast_eq take_bit_eq_mod)
  show "(ucast i :: byte) < 0x80" using u ub by (simp add: word_less_nat_alt)
  have "unat (ucast (ucast i :: byte) :: 64 word) = unat i"
    by (simp only: unat_ucast_byte ub)
  then show "(ucast (ucast i :: byte) :: 64 word) = i"
    by (simp add: word_eq_iff_unsigned [where ?'a = nat])
  show "i \<noteq> 0 \<Longrightarrow> (ucast i :: byte) \<noteq> 0"
    using ub by (metis unat_gt_0)
qed

lemma ge_128: "\<not> (i :: 64 word) < 128 \<Longrightarrow> 128 \<le> unat i"
  by (simp add: word_less_nat_alt)

lemma unat_64_lt: "unat (i :: 64 word) < 2 ^ 64"
  using unsigned_less [of i, where ?'a = nat] by simp

lemma Stream_uint_writeUint64:
  "Stream_uint il (writeUint64 i @ rest) = Inr (i, rest)"
proof -
  consider "i = 0" | "i \<noteq> 0" "i < 128" | "\<not> i < 128" by blast
  then show ?thesis
  proof cases
    case 1
    have "Stream_Kind il (encodeStringHeader 0 @ rest) = Inr (KString, 0, 0, rest)"
      by (rule Stream_Kind_stringHeader) simp_all
    then have "Stream_Kind il (0x80 # rest) = Inr (KString, 0, 0, rest)"
      by (simp add: encodeStringHeader_def)
    then show ?thesis using 1 by (simp add: writeUint64_def Stream_uint_def readUint_def)
  next
    case 2
    have k: "Stream_Kind il (ucast i # rest) = Inr (KByte, 0, ucast i, rest)"
      using ucast_small(1) [OF 2(2)] by (rule Stream_Kind_byte)
    show ?thesis
      using 2 k ucast_small(2) [OF 2(2)] ucast_small(3) [OF 2(2) 2(1)]
      by (simp add: writeUint64_def Stream_uint_def)
  next
    case 3
    let ?n = "unat i"
    let ?L = "length (putint ?n)"
    have l8: "?L \<le> 8" using unat_64_lt by (rule length_putint_64)
    have n0: "i \<noteq> 0" using 3 by auto
    have wu: "writeUint64 i = (0x80 + of_nat ?L) # putint ?n"
      using 3 n0 by (simp add: writeUint64_def)
    have "Stream_Kind il (encodeStringHeader ?L @ putint ?n @ rest) = Inr (KString, ?L, 0, putint ?n @ rest)"
      using l8 by (intro Stream_Kind_stringHeader) simp_all
    then have k: "Stream_Kind il ((0x80 + of_nat ?L) # putint ?n @ rest) = Inr (KString, ?L, 0, putint ?n @ rest)"
      using l8 by (simp add: encodeStringHeader_def)
    have r: "readUint il ?L (putint ?n @ rest) = Inr (?n, rest)"
      using l8 by (rule readUint_putint)
    have big: "\<not> ?n < 128" using ge_128 [OF 3] by simp
    show ?thesis
      using l8 big by (simp add: wu Stream_uint_def k r)
  qed
qed

lemma field_Inr: "field (Inr v) = Inr v"
  by (simp add: field_def)

lemma length_writeBytes: "length b \<le> length (writeBytes b)"
  by (cases b) (simp_all add: writeBytes_def)

lemma valid_message_lengths:
  assumes "valid_message m"
  shows "length (Hash m) = 32" and "length (Address m) = 20"
    and "length (Hash m) < 2 ^ 64" and "length (Address m) < 2 ^ 64"
    and "length (Msg m) < 2 ^ 64" and "length (Signature m) < 2 ^ 64"
    and "length (CommittedSeal m) < 2 ^ 64"
proof -
  show h: "length (Hash m) = 32" and a: "length (Address m) = 20"
    using assms by (simp_all add: valid_message_def HashLength_def AddressLength_def)
  show "length (Hash m) < 2 ^ 64" and "length (Address m) < 2 ^ 64"
    by (simp_all add: h a)
  have t: "length (writeBytes (Msg m)) + length (writeBytes (Signature m))
           + length (writeBytes (CommittedSeal m)) < 2 ^ 64"
    using assms by (simp add: valid_message_def)
  show "length (Msg m) < 2 ^ 64"
    using t length_writeBytes [of "Msg m"] by linarith
  show "length (Signature m) < 2 ^ 64"
    using t length_writeBytes [of "Signature m"] by linarith
  show "length (CommittedSeal m) < 2 ^ 64"
    using t length_writeBytes [of "CommittedSeal m"] by linarith
qed

lemma decodeFields_encoded:
  assumes "valid_message m"
  shows "decodeFields (writeBytes (Hash m) @ writeUint64 (Code m) @ writeBytes (Msg m) @
             writeBytes (Address m) @ writeBytes (Signature m) @
             writeBytes (CommittedSeal m) @ left) = Inr (m, left)"
proof -
  note l = valid_message_lengths [OF assms]
  have h: "\<And>r. decodeByteArray HashLength True (writeBytes (Hash m) @ r) = Inr (Hash m, r)"
    using decodeByteArray_writeBytes [OF l(3)] by (simp add: l(1) HashLength_def)
  have a: "\<And>r. decodeByteArray AddressLength True (writeBytes (Address m) @ r) = Inr (Address m, r)"
    using decodeByteArray_writeBytes [OF l(4)] by (simp add: l(2) AddressLength_def)
  have "decodeFields (writeBytes (Hash m) @ writeUint64 (Code m) @ writeBytes (Msg m) @
             writeBytes (Address m) @ writeBytes (Signature m) @
             writeBytes (CommittedSeal m) @ left)
        = Inr (\<lparr>Hash = Hash m, Code = Code m, Msg = Msg m, Address = Address m,
                 Signature = Signature m, CommittedSeal = CommittedSeal m\<rparr>, left)"
    by (simp add: decodeFields_def h a field_Inr Stream_uint_writeUint64
        Stream_Bytes_writeBytes [OF l(5)] Stream_Bytes_writeBytes [OF l(6)]
        Stream_Bytes_writeBytes [OF l(7)])
  then show ?thesis by simp
qed

lemma decodeStruct_encoded:
  assumes "valid_message m" and "EncodeRLP m = Inr b"
  shows "decodeStruct (b @ after) = Inr (m, after)"
proof -
  let ?p = "writeBytes (Hash m) @ writeUint64 (Code m) @ writeBytes (Msg m) @
             writeBytes (Address m) @ writeBytes (Signature m) @
             writeBytes (CommittedSeal m)"
  have b: "b = puthead 0xC0 0xF7 (length ?p) @ ?p"
    using assms(2) by (simp add: EncodeRLP_def EncodeToBytes_def Let_def)
  have n: "length ?p < 2 ^ 64"
    using assms(1) by (simp add: valid_message_def)
  have ne: "puthead 0xC0 0xF7 (length ?p) \<noteq> []"
    by (simp add: puthead_def)
  have k: "Stream_Kind False (puthead 0xC0 0xF7 (length ?p) @ ?p @ after)
           = Inr (KList, length ?p, 0, ?p @ after)"
    using readKind_listHeader [OF n, of False "?p @ after"]
    by (simp add: Stream_Kind_def)
  have l: "Stream_List False (b @ after) = Inr (?p, after)"
    using k by (simp add: Stream_List_def b)
  have f: "decodeFields ?p = Inr (m, [])"
    using decodeFields_encoded [OF assms(1), of "[]"] by simp
  have "decodeStruct (b @ after) =
        (case decodeFields ?p of
           Inl e \<Rightarrow> Inl e
         | Inr (msg, left) \<Rightarrow>
             (case Stream_ListEnd left of Some e \<Rightarrow> Inl e | None \<Rightarrow> Inr (msg, after)))"
    unfolding decodeStruct_def l by simp
  also have "\<dots> = Inr (m, after)"
    unfolding f by (simp add: Stream_ListEnd_def)
  finally show ?thesis .
qed

lemma EncodeRLP_Inr: "\<exists>b. EncodeRLP m = Inr b"
  by (simp add: EncodeRLP_def EncodeToBytes_def)

lemma DecodeRLP_encoded:
  assumes "valid_message m" and "EncodeRLP m = Inr b"
  shows "DecodeRLP m0 (b @ after) = (Inr after, m)"
  by (simp add: DecodeRLP_def decodeStruct_encoded [OF assms])

lemma DecodeBytes_encoded:
  assumes "valid_message m" and "EncodeRLP m = Inr b"
  shows "DecodeBytes m0 b = (None, m)"
  using DecodeRLP_encoded [OF assms, of m0 "[]"] by (simp add: DecodeBytes_def)

section \<open>What the decoder accepts is what the encoder writes\<close>

lemma tag_inv:
  assumes "\<not> (b :: byte) < t" and "unat b < unat t + k"
  shows "unat (b - t) < k" and "t + of_nat (unat (b - t)) = b"
proof -
  have le: "t \<le> b" using assms(1) by simp
  have "unat (b - t) = unat b - unat t" using le by (rule unat_sub)
  then show "unat (b - t) < k" using assms(2) le by (simp add: word_le_nat_alt)
  show "t + of_nat (unat (b - t)) = b" by simp
qed

lemma tag_inv_pos:
  assumes "\<not> (b :: byte) < t + 1" and "t < t + 1"
  shows "1 \<le> unat (b - t)"
proof -
  have le: "t + 1 \<le> b" using assms(1) by simp
  have lt: "t < b" using assms(2) le by simp
  then have "unat (b - t) = unat b - unat t" by (intro unat_sub) simp
  then show ?thesis using lt by (simp add: word_less_nat_alt)
qed

lemma readUint_inv:
  assumes "readUint il l bs = Inr (n, rest)" and "1 \<le> l" and "l \<le> 8"
  shows "bs = putint n @ rest \<and> length (putint n) = l \<and> n < 2 ^ 64"
proof (cases "l = 1")
  case True
  then obtain b where bs: "bs = b # rest" and n: "n = unat b"
    using assms(1) by (auto simp: readUint_def split: list.splits)
  have lt: "n < 256" using n unat_byte_lt by simp
  then have "putint n = [b]" using n by (simp add: putint_small)
  then show ?thesis using bs True lt by simp
next
  case False
  then have l2: "2 \<le> l" using assms(2) by simp
  have len: "l \<le> length bs" and hd: "hd bs \<noteq> 0"
    and n: "n = be_nat (take l bs)" and rest: "rest = drop l bs"
    using assms(1) False l2 by (auto simp: readUint_def split: if_splits)
  let ?buf = "take l bs"
  have lb: "length ?buf = l" using len by simp
  have ne: "?buf \<noteq> []" using lb l2 by auto
  have "hd ?buf = hd bs" using l2 by (cases bs) (simp_all add: take_Cons')
  then have hb: "hd ?buf \<noteq> 0" using hd by simp
  have p: "putint n = ?buf" unfolding n using ne hb by (intro putint_be_nat) simp_all
  have "n < 256 ^ l" using be_nat_lt [of ?buf] lb n by simp
  also have "(256::nat) ^ l \<le> 256 ^ 8" using assms(3) by (intro power_increasing) simp_all
  finally have "n < 2 ^ 64" by simp
  then show ?thesis using p lb rest by simp
qed

lemma readKind_KByte_inv:
  assumes "readKind il bs = Inr (KByte, n, bv, rest)"
  shows "bs = bv # rest \<and> bv < 0x80 \<and> n = 0"
  using assms
  by (auto simp: readKind_def split: list.splits if_splits sum.splits)

lemma readKind_KString_inv:
  assumes "readKind il bs = Inr (KString, n, bv, rest)"
  shows "bs = encodeStringHeader n @ rest \<and> n < 2 ^ 64"
proof -
  obtain b r where bs: "bs = b # r" using assms by (cases bs) (auto simp: readKind_def)
  have nb: "\<not> b < 0x80" using assms bs by (auto simp: readKind_def split: if_splits)
  have c: "b < 0xC0" using assms bs
    by (auto simp: readKind_def word_less_nat_alt split: if_splits sum.splits)
  show ?thesis
  proof (cases "b < 0xB8")
    case True
    then have n: "n = unat (b - 0x80)" and r: "rest = r"
      using assms bs nb by (auto simp: readKind_def)
    have "unat b < unat (0x80 :: byte) + 56" using True by (simp add: word_less_nat_alt)
    from tag_inv [OF nb this] have "n < 56" and "0x80 + of_nat n = b" using n by simp_all
    then show ?thesis using bs r by (simp add: encodeStringHeader_def)
  next
    case False
    let ?l = "unat (b - 0xB7)"
    have ru: "readUint il ?l r = Inr (n, rest)" and big: "\<not> n < 56"
      using assms bs nb False c by (auto simp: readKind_def split: sum.splits if_splits)
    have "unat b < unat (0xB7 :: byte) + 9" using c by (simp add: word_less_nat_alt)
    moreover have nb7: "\<not> b < 0xB7" using False by (simp add: word_less_nat_alt)
    ultimately have l9: "?l < 9" and tb: "0xB7 + of_nat ?l = b" using tag_inv [of b "0xB7" 9] by simp_all
    have l1: "1 \<le> ?l" using tag_inv_pos [of b "0xB7"] False by simp
    from readUint_inv [OF ru l1] l9 have "r = putint n @ rest" "length (putint n) = ?l" "n < 2 ^ 64"
      by simp_all
    then show ?thesis using bs big tb by (simp add: encodeStringHeader_def)
  qed
qed

lemma readKind_KList_inv:
  assumes "readKind il bs = Inr (KList, n, bv, rest)"
  shows "bs = puthead 0xC0 0xF7 n @ rest \<and> n < 2 ^ 64"
proof -
  obtain b r where bs: "bs = b # r" using assms by (cases bs) (auto simp: readKind_def)
  have nb: "\<not> b < 0xC0" using assms bs by (auto simp: readKind_def split: if_splits sum.splits)
  then have nb80: "\<not> b < 0x80" and nbB8: "\<not> b < 0xB8" by (simp_all add: word_less_nat_alt)
  show ?thesis
  proof (cases "b < 0xF8")
    case True
    then have n: "n = unat (b - 0xC0)" and r: "rest = r"
      using assms bs nb nb80 nbB8 by (auto simp: readKind_def)
    have "unat b < unat (0xC0 :: byte) + 56" using True by (simp add: word_less_nat_alt)
    from tag_inv [OF nb this] have "n < 56" and "0xC0 + of_nat n = b" using n by simp_all
    then show ?thesis using bs r by (simp add: puthead_def)
  next
    case False
    let ?l = "unat (b - 0xF7)"
    have ru: "readUint il ?l r = Inr (n, rest)" and big: "\<not> n < 56"
      using assms bs nb nb80 nbB8 False by (auto simp: readKind_def split: sum.splits if_splits)
    have "unat b < unat (0xF7 :: byte) + 9" using unat_byte_lt [of b] by simp
    moreover have nb7: "\<not> b < 0xF7" using False by (simp add: word_less_nat_alt)
    ultimately have l9: "?l < 9" and tb: "0xF7 + of_nat ?l = b" using tag_inv [of b "0xF7" 9] by simp_all
    have l1: "1 \<le> ?l" using tag_inv_pos [of b "0xF7"] False by simp
    from readUint_inv [OF ru l1] l9 have "r = putint n @ rest" "length (putint n) = ?l" "n < 2 ^ 64"
      by simp_all
    then show ?thesis using bs big tb by (simp add: puthead_def)
  qed
qed

lemma Stream_Kind_inv:
  assumes "Stream_Kind il bs = Inr (k, n, bv, rest)"
  shows "readKind il bs = Inr (k, n, bv, rest) \<and> n \<le> length rest"
  using assms by (auto simp: Stream_Kind_def split: if_splits sum.splits)

lemma Stream_Bytes_inv:
  assumes "Stream_Bytes il bs = Inr (v, rest)"
  shows "bs = writeBytes v @ rest \<and> length v < 2 ^ 64"
proof -
  obtain k n bv r where sk: "Stream_Kind il bs = Inr (k, n, bv, r)"
    using assms by (auto simp: Stream_Bytes_def split: sum.splits)
  note rk = Stream_Kind_inv [OF sk]
  show ?thesis
  proof (cases k)
    case KByte
    then have v: "v = [bv]" and r: "rest = r"
      using assms sk by (auto simp: Stream_Bytes_def)
    have "bs = bv # r" and lt: "bv < 0x80" using rk KByte readKind_KByte_inv by blast+
    then show ?thesis using v r by (simp add: writeBytes_def le_7F)
  next
    case KString
    then have nc: "\<not> (n = 1 \<and> hd r < 128)" and v: "v = take n r" and r: "rest = drop n r"
      using assms sk by (auto simp: Stream_Bytes_def split: if_splits)
    have bs: "bs = encodeStringHeader n @ r" and n64: "n < 2 ^ 64"
      using rk KString readKind_KString_inv by blast+
    have lv: "length v = n" using v rk by simp
    have "\<not> (length v = 1 \<and> hd v \<le> 0x7F)"
    proof
      assume a: "length v = 1 \<and> hd v \<le> 0x7F"
      then have "n = 1" using lv by simp
      moreover have "hd v = hd r" using v \<open>n = 1\<close> by (cases r) simp_all
      ultimately show False using a nc by (simp add: le_7F)
    qed
    then have "writeBytes v = encodeStringHeader n @ v" using lv by (auto simp: writeBytes_def)
    then show ?thesis using bs v r lv n64 by simp
  next
    case KList
    then show ?thesis using assms sk by (simp add: Stream_Bytes_def)
  qed
qed

lemma decodeByteArray_inv:
  assumes "decodeByteArray a il bs = Inr (v, rest)"
  shows "bs = writeBytes v @ rest \<and> length v = a"
proof -
  obtain k n bv r where sk: "Stream_Kind il bs = Inr (k, n, bv, r)"
    using assms by (auto simp: decodeByteArray_def split: sum.splits)
  note rk = Stream_Kind_inv [OF sk]
  show ?thesis
  proof (cases k)
    case KByte
    then have v: "v = [bv]" and r: "rest = r" and a: "a = 1"
      using assms sk by (auto simp: decodeByteArray_def split: if_splits)
    have "bs = bv # r" and lt: "bv < 0x80" using rk KByte readKind_KByte_inv by blast+
    then show ?thesis using v r a by (simp add: writeBytes_def le_7F)
  next
    case KString
    then have nc: "\<not> (n = 1 \<and> hd r < 128)" and v: "v = take n r" and r: "rest = drop n r"
      and a: "a = n"
      using assms sk by (auto simp: decodeByteArray_def split: if_splits)
    have bs: "bs = encodeStringHeader n @ r" and n64: "n < 2 ^ 64"
      using rk KString readKind_KString_inv by blast+
    have lv: "length v = n" using v rk by simp
    have "\<not> (length v = 1 \<and> hd v \<le> 0x7F)"
    proof
      assume c: "length v = 1 \<and> hd v \<le> 0x7F"
      then have "n = 1" using lv by simp
      moreover have "hd v = hd r" using v \<open>n = 1\<close> by (cases r) simp_all
      ultimately show False using c nc by (simp add: le_7F)
    qed
    then have "writeBytes v = encodeStringHeader n @ v" using lv by (auto simp: writeBytes_def)
    then show ?thesis using bs v r lv a by simp
  next
    case KList
    then show ?thesis using assms sk by (simp add: decodeByteArray_def)
  qed
qed

lemma ucast_byte_small:
  assumes "(bv :: byte) < 0x80"
  shows "(ucast bv :: 64 word) < 128" and "(ucast (ucast bv :: 64 word) :: byte) = bv"
    and "bv \<noteq> 0 \<Longrightarrow> (ucast bv :: 64 word) \<noteq> 0"
proof -
  have u: "unat bv < 128" using assms by (simp add: word_less_nat_alt)
  show "(ucast bv :: 64 word) < 128"
    using u by (simp add: word_less_nat_alt unat_ucast_byte)
  show "(ucast (ucast bv :: 64 word) :: byte) = bv"
    by (rule ucast_up_ucast_id) (simp add: is_up)
  show "bv \<noteq> 0 \<Longrightarrow> (ucast bv :: 64 word) \<noteq> 0"
    by (metis unat_ucast_byte unat_gt_0)
qed

lemma unat_of_nat_64: "v < 2 ^ 64 \<Longrightarrow> unat (of_nat v :: 64 word) = v"
  by (simp add: unat_of_nat)

lemma Stream_uint_inv:
  assumes "Stream_uint il bs = Inr (i, rest)"
  shows "bs = writeUint64 i @ rest"
proof -
  obtain k n bv r where sk: "Stream_Kind il bs = Inr (k, n, bv, r)"
    using assms by (auto simp: Stream_uint_def split: sum.splits)
  note rk = Stream_Kind_inv [OF sk]
  show ?thesis
  proof (cases k)
    case KByte
    then have nz: "bv \<noteq> 0" and i: "i = ucast bv" and r: "rest = r"
      using assms sk by (auto simp: Stream_uint_def split: if_splits)
    have bs: "bs = bv # r" and lt: "bv < 0x80" using rk KByte readKind_KByte_inv by blast+
    have "writeUint64 i = [bv]"
      using ucast_byte_small [OF lt] nz by (simp add: writeUint64_def i)
    then show ?thesis using bs r by simp
  next
    case KString
    have bs: "bs = encodeStringHeader n @ r" using rk KString readKind_KString_inv by blast
    have n8: "n \<le> 8" using assms sk KString by (auto simp: Stream_uint_def split: if_splits)
    obtain v where ru: "readUint il n r = Inr (v, rest)" and nc: "\<not> (n > 0 \<and> v < 128)"
      and i: "i = of_nat v"
      using assms sk KString n8 by (auto simp: Stream_uint_def split: if_splits sum.splits)
    show ?thesis
    proof (cases "n = 0")
      case True
      then have "v = 0" and "rest = r" using ru by (simp_all add: readUint_def)
      then show ?thesis using bs True i by (simp add: writeUint64_def encodeStringHeader_def)
    next
      case False
      then have n1: "1 \<le> n" and big: "\<not> v < 128" using nc by simp_all
      from readUint_inv [OF ru n1 n8]
      have r: "r = putint v @ rest" and l: "length (putint v) = n" and v64: "v < 2 ^ 64"
        by simp_all
      have u: "unat i = v" using i v64 by (simp add: unat_of_nat_64)
      have "\<not> i < 128" and "i \<noteq> 0" using u big by (auto simp: word_less_nat_alt)
      then have "writeUint64 i = (0x80 + of_nat n) # putint v"
        using u l by (simp add: writeUint64_def)
      then show ?thesis using bs r n8 by (simp add: encodeStringHeader_def)
    qed
  next
    case KList
    then show ?thesis using assms sk by (simp add: Stream_uint_def)
  qed
qed

lemma field_inv: "field r = Inr v \<longleftrightarrow> r = Inr v"
  by (cases r) (simp_all add: field_def)

lemma decodeFields_inv:
  assumes "decodeFields p = Inr (m, left)"
  shows "p = writeBytes (Hash m) @ writeUint64 (Code m) @ writeBytes (Msg m) @
             writeBytes (Address m) @ writeBytes (Signature m) @
             writeBytes (CommittedSeal m) @ left
         \<and> length (Hash m) = HashLength \<and> length (Address m) = AddressLength"
proof -
  obtain h p1 where 1: "decodeByteArray HashLength True p = Inr (h, p1)"
    using assms by (auto simp: decodeFields_def field_inv split: sum.splits)
  obtain c p2 where 2: "Stream_uint True p1 = Inr (c, p2)"
    using assms 1 by (auto simp: decodeFields_def field_inv field_Inr split: sum.splits)
  obtain g p3 where 3: "Stream_Bytes True p2 = Inr (g, p3)"
    using assms 1 2 by (auto simp: decodeFields_def field_inv field_Inr split: sum.splits)
  obtain a p4 where 4: "decodeByteArray AddressLength True p3 = Inr (a, p4)"
    using assms 1 2 3 by (auto simp: decodeFields_def field_inv field_Inr split: sum.splits)
  obtain sg p5 where 5: "Stream_Bytes True p4 = Inr (sg, p5)"
    using assms 1 2 3 4 by (auto simp: decodeFields_def field_inv field_Inr split: sum.splits)
  obtain cs p6 where 6: "Stream_Bytes True p5 = Inr (cs, p6)"
    using assms 1 2 3 4 5 by (auto simp: decodeFields_def field_inv field_Inr split: sum.splits)
  have m: "m = \<lparr>Hash = h, Code = c, Msg = g, Address = a, Signature = sg, CommittedSeal = cs\<rparr>"
    and left: "left = p6"
    using assms 1 2 3 4 5 6 by (simp_all add: decodeFields_def field_Inr)
  show ?thesis
    using decodeByteArray_inv [OF 1] Stream_uint_inv [OF 2] Stream_Bytes_inv [OF 3]
      decodeByteArray_inv [OF 4] Stream_Bytes_inv [OF 5] Stream_Bytes_inv [OF 6]
    by (simp add: m left)
qed

lemma Stream_List_inv:
  assumes "Stream_List il bs = Inr (payload, after)"
  shows "bs = puthead 0xC0 0xF7 (length payload) @ payload @ after \<and> length payload < 2 ^ 64"
proof -
  obtain k n bv r where sk: "Stream_Kind il bs = Inr (k, n, bv, r)"
    using assms by (auto simp: Stream_List_def split: sum.splits)
  have k: "k = KList" and p: "payload = take n r" and a: "after = drop n r"
    using assms sk by (auto simp: Stream_List_def split: if_splits)
  note rk = Stream_Kind_inv [OF sk]
  have "bs = puthead 0xC0 0xF7 n @ r" and "n < 2 ^ 64"
    using rk k readKind_KList_inv by blast+
  moreover have "length payload = n" using p rk by simp
  ultimately show ?thesis using p a by simp
qed

lemma decodeStruct_inv:
  assumes "decodeStruct bs = Inr (m, after)"
  shows "\<exists>b. EncodeRLP m = Inr b \<and> bs = b @ after \<and> valid_message m"
proof -
  obtain payload where sl: "Stream_List False bs = Inr (payload, after)"
    and df: "decodeFields payload = Inr (m, [])"
    using assms
    by (auto simp: decodeStruct_def Stream_ListEnd_def split: sum.splits if_splits option.splits)
  let ?p = "writeBytes (Hash m) @ writeUint64 (Code m) @ writeBytes (Msg m) @
             writeBytes (Address m) @ writeBytes (Signature m) @
             writeBytes (CommittedSeal m)"
  have p: "payload = ?p" and h: "length (Hash m) = HashLength"
    and a: "length (Address m) = AddressLength"
    using decodeFields_inv [OF df] by simp_all
  have bs: "bs = puthead 0xC0 0xF7 (length ?p) @ ?p @ after" and n: "length ?p < 2 ^ 64"
    using Stream_List_inv [OF sl] unfolding p by blast+
  have v: "valid_message m"
    unfolding valid_message_def using h a n by blast
  have e: "EncodeRLP m = Inr (puthead 0xC0 0xF7 (length ?p) @ ?p)"
    by (simp add: EncodeRLP_def EncodeToBytes_def Let_def)
  show ?thesis using e bs v by simp
qed

section \<open>Claims about the envelope codec\<close>

lemma valid_sample_message: "valid_message sample_message"
  by (simp add: sample_message_def valid_message_def HashLength_def AddressLength_def
      writeBytes_def writeUint64_def encodeStringHeader_def)

lemma EncodeRLP_sample_message: "EncodeRLP sample_message = Inr sample_wire"
  by (simp add: sample_message_def sample_wire_def EncodeRLP_def EncodeToBytes_def
      writeBytes_def writeUint64_def encodeStringHeader_def puthead_def putint_small)

lemma DecodeBytes_sample_wire: "DecodeBytes m sample_wire = (None, sample_message)"
  using valid_sample_message EncodeRLP_sample_message by (rule DecodeBytes_encoded)

lemma decodeStruct_sample_wire: "decodeStruct sample_wire = Inr (sample_message, [])"
  using decodeStruct_encoded [OF valid_sample_message EncodeRLP_sample_message, of "[]"] by simp

text \<open>
  Claim C2. For every valid envelope, decoding the bytes that encoding produces gives
  the envelope back, whatever the receiver held before: \<open>DecodeRLP\<close> reads the whole
  input and \<open>rlp.DecodeBytes\<close> reports no error.
\<close>

theorem decode_encode_roundtrip:
  assumes "valid_message m"
  shows "\<exists>b. EncodeRLP m = Inr b \<and> DecodeRLP m0 b = (Inr [], m) \<and> DecodeBytes m0 b = (None, m)"
proof -
  obtain b where b: "EncodeRLP m = Inr b"
    using EncodeRLP_Inr by blast
  have "DecodeRLP m0 (b @ []) = (Inr [], m)"
    using assms b by (rule DecodeRLP_encoded)
  moreover have "DecodeBytes m0 b = (None, m)"
    using assms b by (rule DecodeBytes_encoded)
  ultimately show ?thesis using b by simp
qed

theorem decode_encode_roundtrip_witness:
  "valid_message sample_message \<and> EncodeRLP sample_message = Inr sample_wire
   \<and> DecodeRLP other_message sample_wire = (Inr [], sample_message)
   \<and> DecodeBytes other_message sample_wire = (None, sample_message)"
  using decode_encode_roundtrip [OF valid_sample_message, of other_message]
  by (simp add: valid_sample_message EncodeRLP_sample_message)

text \<open>
  Claim C6. Encoding writes one list whose content is the six fields in the order
  Hash (digest), Code (kind), Msg (payload), Address (sender), Signature, CommittedSeal,
  each as a byte string or an integer, and nothing else; equal envelopes give equal
  bytes.
\<close>

theorem EncodeRLP_fixed_order:
  "EncodeRLP m =
     Inr (puthead 0xC0 0xF7
            (length (writeBytes (Hash m) @ writeUint64 (Code m) @ writeBytes (Msg m) @
                     writeBytes (Address m) @ writeBytes (Signature m) @
                     writeBytes (CommittedSeal m)))
          @ writeBytes (Hash m) @ writeUint64 (Code m) @ writeBytes (Msg m) @
            writeBytes (Address m) @ writeBytes (Signature m) @
            writeBytes (CommittedSeal m))
   \<and> (m = m' \<longrightarrow> EncodeRLP m = EncodeRLP m')"
  by (simp add: EncodeRLP_def EncodeToBytes_def Let_def)

theorem EncodeRLP_fixed_order_witness:
  "EncodeRLP sample_message =
     Inr ([0xF8, 63] @ (0xA0 # Hash sample_message) @ [2] @ [0x83, 1, 2, 3]
          @ (0x94 # Address sample_message) @ [0x82, 0xAA, 0xBB] @ [0x80])
   \<and> EncodeRLP sample_message = EncodeRLP sample_message"
  using EncodeRLP_fixed_order [of sample_message sample_message]
  by (simp add: sample_message_def writeBytes_def writeUint64_def encodeStringHeader_def
      puthead_def putint_small)

text \<open>
  Claim C1 as stated fails: two envelopes that differ only in their committed seal have
  different signing payloads.
\<close>

theorem PayloadNoSig_committedSeal_counterexample:
  "PayloadNoSig (sample_message\<lparr>CommittedSeal := [1]\<rparr>) \<noteq> PayloadNoSig sample_message"
  by (simp add: sample_message_def PayloadNoSig_def EncodeRLP_def EncodeToBytes_def
      writeBytes_def writeUint64_def encodeStringHeader_def puthead_def putint_small)

text \<open>
  Claim C1, amended. The signing payload is the encoding of the envelope with the
  signature treated as empty and the committed seal as it is: two envelopes that are
  identical except for their signature have the same signing payload.
\<close>

theorem PayloadNoSig_ignores_Signature:
  "PayloadNoSig (m\<lparr>Signature := s\<rparr>) = PayloadNoSig m
   \<and> PayloadNoSig m = EncodeRLP (m\<lparr>Signature := []\<rparr>)"
  by (simp add: PayloadNoSig_def EncodeRLP_def)

text \<open>
  Claim C8. \<open>PayloadNoSig\<close> on a receiver in the store returns, allocates one new
  object for the message it encodes and leaves every object that was in the store,
  the receiver among them, as it was.
\<close>

theorem PayloadNoSig_store_frame:
  assumes "m < length h"
  shows "\<exists>r h'. PayloadNoSig_store h m = Some (r, h') \<and> r = PayloadNoSig (h ! m)
           \<and> length h' = Suc (length h) \<and> (\<forall>q < length h. h' ! q = h ! q)"
  using assms
  by (simp add: PayloadNoSig_store_def new_message_def PayloadNoSig_def nth_append)

theorem PayloadNoSig_store_frame_witness:
  "(0::nat) < length [sample_message]
   \<and> (\<exists>r h'. PayloadNoSig_store [sample_message] 0 = Some (r, h')
         \<and> r = PayloadNoSig sample_message \<and> h' ! 0 = sample_message)"
  using PayloadNoSig_store_frame [of 0 "[sample_message]"] by auto

section \<open>Claims about authentication\<close>

lemma DecodeRLP_cases:
  "(\<exists>err. decodeStruct b = Inl err \<and> DecodeRLP m b = (Inl (DecodeError err), m))
   \<or> (\<exists>msg rest. decodeStruct b = Inr (msg, rest) \<and> DecodeRLP m b = (Inr rest, msg))"
proof (cases "decodeStruct b")
  case (Inl err)
  then show ?thesis by (simp add: DecodeRLP_def)
next
  case (Inr r)
  obtain msg rest where r: "r = (msg, rest)" by (cases r)
  have "m\<lparr>Hash := Hash msg, Code := Code msg, Msg := Msg msg, Address := Address msg,
          Signature := Signature msg, CommittedSeal := CommittedSeal msg\<rparr> = msg"
    by simp
  then show ?thesis using Inr r by (simp add: DecodeRLP_def)
qed

lemma DecodeBytes_Some:
  assumes "DecodeBytes m b = (Some err, m')"
  shows "\<exists>e. err = DecodeError e"
  using assms DecodeRLP_cases [of b m]
  by (auto simp: DecodeBytes_def split: if_splits)

lemma DecodeBytes_None:
  "DecodeBytes m b = (None, m') \<longleftrightarrow> decodeStruct b = Inr (m', [])"
  using DecodeRLP_cases [of b m]
  by (auto simp: DecodeBytes_def split: if_splits)

text \<open>
  Claim C3. Without a callback, \<open>FromPayload\<close> is the decoding alone. With a callback:
  a decoding error is returned as it is (it is a decode error, not InvalidSigner); an
  error of the callback is returned as it is; and when the callback recovers an address
  over the signing payload and the signature of the decoded envelope, the result is
  InvalidSigner exactly when that address differs from the envelope's sender, and
  success otherwise.
\<close>

theorem FromPayload_authentication:
  "FromPayload m b None = DecodeBytes m b
   \<and> (\<forall>err m'. DecodeBytes m b = (Some err, m') \<longrightarrow>
         FromPayload m b (Some f) = (Some err, m') \<and> err \<noteq> errInvalidSigner)
   \<and> (\<forall>m' p a. DecodeBytes m b = (None, m') \<longrightarrow> PayloadNoSig m' = Inr p \<longrightarrow>
         f p (Signature m') = Inr a \<longrightarrow>
           (fst (FromPayload m b (Some f)) = Some errInvalidSigner \<longleftrightarrow> a \<noteq> Address m')
           \<and> (fst (FromPayload m b (Some f)) = None \<longleftrightarrow> a = Address m'))
   \<and> (\<forall>m' p err. DecodeBytes m b = (None, m') \<longrightarrow> PayloadNoSig m' = Inr p \<longrightarrow>
         f p (Signature m') = Inl err \<longrightarrow> fst (FromPayload m b (Some f)) = Some err)"
proof (intro conjI allI impI)
  show "FromPayload m b None = DecodeBytes m b"
    by (cases "DecodeBytes m b") (auto simp: FromPayload_def split: option.splits)
next
  fix err m' assume d: "DecodeBytes m b = (Some err, m')"
  show "FromPayload m b (Some f) = (Some err, m')"
    by (simp add: FromPayload_def d)
  show "err \<noteq> errInvalidSigner"
    using DecodeBytes_Some [OF d] by auto
next
  fix m' p a
  assume d: "DecodeBytes m b = (None, m')" and p: "PayloadNoSig m' = Inr p"
    and f: "f p (Signature m') = Inr a"
  show "fst (FromPayload m b (Some f)) = Some errInvalidSigner \<longleftrightarrow> a \<noteq> Address m'"
    by (simp add: FromPayload_def d p f)
  show "fst (FromPayload m b (Some f)) = None \<longleftrightarrow> a = Address m'"
    by (simp add: FromPayload_def d p f)
next
  fix m' p err
  assume d: "DecodeBytes m b = (None, m')" and p: "PayloadNoSig m' = Inr p"
    and f: "f p (Signature m') = Inl err"
  show "fst (FromPayload m b (Some f)) = Some err"
    by (simp add: FromPayload_def d p f)
qed

lemma PayloadNoSig_Inr: "\<exists>p. PayloadNoSig m = Inr p"
  by (simp add: PayloadNoSig_def EncodeRLP_def EncodeToBytes_def)

theorem FromPayload_authentication_witness:
  "DecodeBytes other_message sample_wire = (None, sample_message)
   \<and> fst (FromPayload other_message sample_wire (Some (\<lambda>p s. Inr other_address)))
       = Some errInvalidSigner
   \<and> fst (FromPayload other_message sample_wire (Some (\<lambda>p s. Inr (Address sample_message))))
       = None
   \<and> fst (FromPayload other_message sample_wire (Some (\<lambda>p s. Inl (ErrOther ''unauthorized''))))
       = Some (ErrOther ''unauthorized'')
   \<and> FromPayload other_message (butlast sample_wire) (Some (\<lambda>p s. Inr other_address))
       = (Some (DecodeError ErrValueTooLarge), other_message)"
proof -
  obtain p where p: "PayloadNoSig sample_message = Inr p"
    using PayloadNoSig_Inr by blast
  have d: "DecodeBytes other_message sample_wire = (None, sample_message)"
    by (rule DecodeBytes_sample_wire)
  have ne: "other_address \<noteq> Address sample_message"
    by (simp add: other_address_def sample_message_def)
  have t: "DecodeBytes other_message (butlast sample_wire)
             = (Some (DecodeError ErrValueTooLarge), other_message)"
    by (simp add: sample_wire_def DecodeBytes_def DecodeRLP_def decodeStruct_def
        Stream_List_def Stream_Kind_def readKind_def readUint_def tooLarge_def)
  show ?thesis
    using FromPayload_authentication [of other_message sample_wire "\<lambda>p s. Inr other_address"]
      FromPayload_authentication [of other_message sample_wire "\<lambda>p s. Inr (Address sample_message)"]
      FromPayload_authentication [of other_message sample_wire "\<lambda>p s. Inl (ErrOther ''unauthorized'')"]
      FromPayload_authentication [of other_message "butlast sample_wire" "\<lambda>p s. Inr other_address"]
      d p ne t
    by simp
qed

text \<open>
  Claim C9. When the bytes decode and the call then fails with InvalidSigner, the
  receiver holds the decoded envelope, not what it held before the call.
\<close>

theorem FromPayload_not_atomic:
  assumes "decodeStruct b = Inr (msg, [])"
    and "fst (FromPayload m b (Some f)) = Some errInvalidSigner"
  shows "snd (FromPayload m b (Some f)) = msg"
proof -
  have d: "DecodeBytes m b = (None, msg)"
    using assms(1) by (simp add: DecodeBytes_None)
  obtain p where p: "PayloadNoSig msg = Inr p"
    using PayloadNoSig_Inr by blast
  show ?thesis
    by (cases "f p (Signature msg)") (simp_all add: FromPayload_def d p)
qed

theorem FromPayload_not_atomic_witness:
  "decodeStruct sample_wire = Inr (sample_message, [])
   \<and> FromPayload other_message sample_wire (Some (\<lambda>p s. Inr other_address))
       = (Some errInvalidSigner, sample_message)
   \<and> sample_message \<noteq> other_message"
proof -
  obtain p where p: "PayloadNoSig sample_message = Inr p"
    using PayloadNoSig_Inr by blast
  have ne: "other_address \<noteq> Address sample_message"
    by (simp add: other_address_def sample_message_def)
  have e: "fst (FromPayload other_message sample_wire (Some (\<lambda>p s. Inr other_address)))
             = Some errInvalidSigner"
    by (simp add: FromPayload_def DecodeBytes_sample_wire p ne)
  have "snd (FromPayload other_message sample_wire (Some (\<lambda>p s. Inr other_address)))
          = sample_message"
    using decodeStruct_sample_wire e by (rule FromPayload_not_atomic)
  moreover have "sample_message \<noteq> other_message"
    by (simp add: sample_message_def other_message_def)
  ultimately show ?thesis
    using e decodeStruct_sample_wire by (simp add: prod_eq_iff)
qed

section \<open>Claims about rejected input\<close>

lemma DecodeRLP_malformed:
  assumes "\<not> (\<exists>m' e after. valid_message m' \<and> EncodeRLP m' = Inr e \<and> b = e @ after)"
  shows "\<exists>err. decodeStruct b = Inl err \<and> DecodeRLP m b = (Inl (DecodeError err), m)"
proof (cases "decodeStruct b")
  case (Inl err)
  then show ?thesis by (simp add: DecodeRLP_def)
next
  case (Inr r)
  obtain msg rest where "r = (msg, rest)" by (cases r)
  then have "decodeStruct b = Inr (msg, rest)" using Inr by simp
  from decodeStruct_inv [OF this] assms show ?thesis by blast
qed

lemma DecodeBytes_malformed:
  assumes "\<not> (\<exists>m'. valid_message m' \<and> EncodeRLP m' = Inr b)"
  shows "\<exists>err m'. DecodeBytes m b = (Some (DecodeError err), m')"
proof (cases "decodeStruct b")
  case (Inl err)
  then show ?thesis by (simp add: DecodeBytes_def DecodeRLP_def)
next
  case (Inr r)
  obtain msg rest where r: "r = (msg, rest)" by (cases r)
  then have d: "decodeStruct b = Inr (msg, rest)" using Inr by simp
  from decodeStruct_inv [OF d] obtain e where
    e: "EncodeRLP msg = Inr e" "b = e @ rest" "valid_message msg" by blast
  have "rest \<noteq> []" using e assms by auto
  then show ?thesis using d by (simp add: DecodeBytes_def DecodeRLP_def)
qed

lemma truncated_not_decoded:
  assumes "valid_message m'" and "EncodeRLP m' = Inr e" and "k < length e"
  shows "\<exists>err. decodeStruct (take k e) = Inl err"
proof (cases "decodeStruct (take k e)")
  case (Inl err)
  then show ?thesis by simp
next
  case (Inr r)
  obtain msg rest where "r = (msg, rest)" by (cases r)
  then have d: "decodeStruct (take k e) = Inr (msg, rest)" using Inr by simp
  from decodeStruct_inv [OF d] obtain e' where
    e': "EncodeRLP msg = Inr e'" "take k e = e' @ rest" "valid_message msg" by blast
  have "e = e' @ (rest @ drop k e)"
    using e'(2) append_take_drop_id [of k e] by (metis append.assoc)
  then have "decodeStruct e = Inr (msg, rest @ drop k e)"
    using decodeStruct_encoded [OF e'(3) e'(1), of "rest @ drop k e"] by simp
  moreover have "decodeStruct e = Inr (m', [])"
    using decodeStruct_encoded [OF assms(1) assms(2), of "[]"] by simp
  ultimately have "drop k e = []" by simp
  then show ?thesis using assms(3) by simp
qed

text \<open>
  Claim C7. Input that does not begin with the encoding of a valid envelope makes
  \<open>DecodeRLP\<close> fail with a decode error and leaves the receiver untouched; input that
  is not exactly such an encoding makes \<open>rlp.DecodeBytes\<close>, and with it \<open>FromPayload\<close>,
  fail with a decode error; every proper prefix of an encoding is rejected. In every
  case the receiver is afterwards either what it was or a completely decoded valid
  envelope, never a mixture.
\<close>

theorem decode_rejects_malformed:
  "(\<not> (\<exists>m' e after. valid_message m' \<and> EncodeRLP m' = Inr e \<and> b = e @ after) \<longrightarrow>
      (\<exists>err. DecodeRLP m b = (Inl (DecodeError err), m)))
   \<and> (\<not> (\<exists>m'. valid_message m' \<and> EncodeRLP m' = Inr b) \<longrightarrow>
        (\<exists>err. fst (DecodeBytes m b) = Some (DecodeError err))
        \<and> (\<exists>err. fst (FromPayload m b validateFn) = Some (DecodeError err)))
   \<and> (\<forall>m' e k. valid_message m' \<longrightarrow> EncodeRLP m' = Inr e \<longrightarrow> k < length e \<longrightarrow>
        (\<exists>err. DecodeRLP m (take k e) = (Inl (DecodeError err), m)))
   \<and> (snd (DecodeBytes m b) = m
        \<or> (\<exists>e after. valid_message (snd (DecodeBytes m b))
              \<and> EncodeRLP (snd (DecodeBytes m b)) = Inr e \<and> b = e @ after))"
proof (intro conjI allI impI)
  assume "\<not> (\<exists>m' e after. valid_message m' \<and> EncodeRLP m' = Inr e \<and> b = e @ after)"
  from DecodeRLP_malformed [OF this]
  show "\<exists>err. DecodeRLP m b = (Inl (DecodeError err), m)" by blast
next
  assume a: "\<not> (\<exists>m'. valid_message m' \<and> EncodeRLP m' = Inr b)"
  from DecodeBytes_malformed [OF a] obtain err m' where
    d: "DecodeBytes m b = (Some (DecodeError err), m')" by blast
  show "\<exists>err. fst (DecodeBytes m b) = Some (DecodeError err)"
    using d by simp
  show "\<exists>err. fst (FromPayload m b validateFn) = Some (DecodeError err)"
    using d by (simp add: FromPayload_def)
next
  fix m' e k
  assume "valid_message m'" and "EncodeRLP m' = Inr e" and "k < length e"
  then obtain err where "decodeStruct (take k e) = Inl err"
    using truncated_not_decoded by blast
  then show "\<exists>err. DecodeRLP m (take k e) = (Inl (DecodeError err), m)"
    by (simp add: DecodeRLP_def)
next
  show "snd (DecodeBytes m b) = m
        \<or> (\<exists>e after. valid_message (snd (DecodeBytes m b))
              \<and> EncodeRLP (snd (DecodeBytes m b)) = Inr e \<and> b = e @ after)"
  proof (cases "decodeStruct b")
    case (Inl err)
    then show ?thesis by (simp add: DecodeBytes_def DecodeRLP_def)
  next
    case (Inr r)
    obtain msg rest where "r = (msg, rest)" by (cases r)
    then have d: "decodeStruct b = Inr (msg, rest)" using Inr by simp
    have "DecodeRLP m b = (Inr rest, msg)"
      using DecodeRLP_cases [of b m] d by auto
    then have "snd (DecodeBytes m b) = msg"
      by (simp add: DecodeBytes_def)
    then show ?thesis using decodeStruct_inv [OF d] by auto
  qed
qed

theorem decode_rejects_malformed_witness:
  "\<not> (\<exists>m' e after. valid_message m' \<and> EncodeRLP m' = Inr e \<and> [0x83, 1, 2, 3] = e @ after)
   \<and> (\<exists>err. DecodeRLP other_message [0x83, 1, 2, 3] = (Inl (DecodeError err), other_message))
   \<and> (\<exists>err. fst (FromPayload other_message [0x83, 1, 2, 3] None) = Some (DecodeError err))
   \<and> (64::nat) < length sample_wire
   \<and> (\<exists>err. DecodeRLP other_message (take 64 sample_wire)
               = (Inl (DecodeError err), other_message))"
proof -
  have ev: "decodeStruct [0x83, 1, 2, 3] = Inl ErrExpectedList"
    by (simp add: decodeStruct_def Stream_List_def Stream_Kind_def readKind_def)
  have n: "\<not> (\<exists>m' e after. valid_message m' \<and> EncodeRLP m' = Inr e
                \<and> [0x83, 1, 2, 3] = e @ after)"
  proof
    assume "\<exists>m' e after. valid_message m' \<and> EncodeRLP m' = Inr e \<and> [0x83, 1, 2, 3] = e @ after"
    then obtain m' e after where "valid_message m'" and "EncodeRLP m' = Inr e"
      and b: "[0x83, 1, 2, 3] = e @ after" by blast
    then have "decodeStruct (e @ after) = Inr (m', after)"
      by (intro decodeStruct_encoded)
    then show False using ev b by simp
  qed
  then have n2: "\<not> (\<exists>m'. valid_message m' \<and> EncodeRLP m' = Inr [0x83, 1, 2, 3])"
    by (metis append_Nil2)
  have l: "(64::nat) < length sample_wire"
    by (simp add: sample_wire_def)
  show ?thesis
    using decode_rejects_malformed [of "[0x83, 1, 2, 3]" other_message None]
      n n2 l valid_sample_message EncodeRLP_sample_message
    by blast
qed

section \<open>Claims about dispatch on the kind\<close>

text \<open>
  Claim C4. \<open>GetView\<close> dispatches on the kind: a Preprepare payload is decoded as a
  proposal and its view returned; Prepare, Commit and RoundChange payloads are decoded
  as a subject and its view returned; a decoding error is returned as it is; every
  other kind, 99 for one, fails with InvalidMessage.
\<close>

theorem GetView_dispatch:
  "(Code m = msgPreprepare \<longrightarrow>
      GetView decodePreprepare decodeSubject m =
        (case decodePreprepare (Msg m) of
           Inl err \<Rightarrow> Inl err
         | Inr preprepare \<Rightarrow> Inr (Preprepare.View preprepare)))
   \<and> (Code m = msgPrepare \<or> Code m = msgCommit \<or> Code m = msgRoundChange \<longrightarrow>
        GetView decodePreprepare decodeSubject m =
          (case decodeSubject (Msg m) of
             Inl err \<Rightarrow> Inl err
           | Inr subject \<Rightarrow> Inr (Subject.View subject)))
   \<and> (Code m \<notin> {0, 1, 2, 3} \<longrightarrow>
        GetView decodePreprepare decodeSubject m = Inl errInvalidMessage)
   \<and> (Code m = 99 \<longrightarrow> GetView decodePreprepare decodeSubject m = Inl errInvalidMessage)"
  by (auto simp: GetView_def Decode_def msgPreprepare_def msgPrepare_def msgCommit_def
      msgRoundChange_def)

theorem GetView_dispatch_witness:
  "GetView sample_decodePreprepare sample_decodeSubject (sample_message\<lparr>Code := 0\<rparr>)
     = Inr (10, 0)
   \<and> GetView sample_decodePreprepare sample_decodeSubject (sample_message\<lparr>Code := 2\<rparr>)
     = Inr (10, 1)
   \<and> GetView sample_decodePreprepare sample_decodeSubject
       (sample_message\<lparr>Code := 3, Msg := []\<rparr>) = Inl (DecodeError EOF)
   \<and> GetView sample_decodePreprepare sample_decodeSubject (sample_message\<lparr>Code := 99\<rparr>)
     = Inl errInvalidMessage"
  using
    GetView_dispatch [of "sample_message\<lparr>Code := 0\<rparr>"
      sample_decodePreprepare sample_decodeSubject]
    GetView_dispatch [of "sample_message\<lparr>Code := 2\<rparr>"
      sample_decodePreprepare sample_decodeSubject]
    GetView_dispatch [of "sample_message\<lparr>Code := 3, Msg := []\<rparr>"
      sample_decodePreprepare sample_decodeSubject]
    GetView_dispatch [of "sample_message\<lparr>Code := 99\<rparr>"
      sample_decodePreprepare sample_decodeSubject]
  by (simp add: msgPreprepare_def msgPrepare_def msgCommit_def msgRoundChange_def
      sample_decodePreprepare_def sample_decodeSubject_def sample_message_def)

section \<open>Claims about the effective parameter set\<close>

text \<open>
  Claim C10. Where the Kore fork test is false, the effective parameter set is the
  default set overlaid with the header governance parameters of the block, and the
  contract governance parameters play no part; where it is true, the contract
  governance parameters are overlaid after them.
\<close>

theorem EffectiveParamSet_kore:
  "(\<not> isKoreHF m blockNum \<longrightarrow>
      EffectiveParamSet GetDefaultGovernanceParamSet ParamSet_Set m blockNum =
        overlay ParamSet_Set (Hgm_EffectiveParamsPartial m blockNum)
          GetDefaultGovernanceParamSet
      \<and> EffectiveParamSet GetDefaultGovernanceParamSet ParamSet_Set
           (m\<lparr>Cgm_EffectiveParamsPartial := c\<rparr>) blockNum =
         EffectiveParamSet GetDefaultGovernanceParamSet ParamSet_Set m blockNum)
   \<and> (isKoreHF m blockNum \<longrightarrow>
        EffectiveParamSet GetDefaultGovernanceParamSet ParamSet_Set m blockNum =
          overlay ParamSet_Set (Cgm_EffectiveParamsPartial m blockNum)
            (overlay ParamSet_Set (Hgm_EffectiveParamsPartial m blockNum)
               GetDefaultGovernanceParamSet))"
  by (simp add: EffectiveParamSet_def Let_def)

theorem EffectiveParamSet_kore_witness:
  "\<not> isKoreHF sample_gov 5 \<and> isKoreHF sample_gov 100
   \<and> EffectiveParamSet sample_default sample_Set sample_gov 5
       = sample_default(''a'' := 1, ''b'' := 2)
   \<and> EffectiveParamSet sample_default sample_Set sample_gov 100
       = sample_default(''a'' := 1, ''b'' := 3)"
  using
    EffectiveParamSet_kore [of sample_gov 5 sample_default sample_Set]
    EffectiveParamSet_kore [of sample_gov 100 sample_default sample_Set]
  by (simp add: overlay_def sample_gov_def sample_Set_def)

end
